theory Spec2Isabelle
  imports Main "HOL-Library.Word" "HOL-Library.Multiset"
begin

unbundle bit_operations_syntax

section \<open>The calendar queue of lcelib/misc/CalQueue.H\<close>

text \<open>
  The embedding follows CalQueue.H function by function.  Machine integers are words:
  \<open>unsigned int\<close> is a 32-bit word, \<open>unsigned long int\<close> (the time type) a 64-bit
  word (LP64), \<open>unsigned char\<close> an 8-bit word; the three \<open>int\<close> variables of the
  retuning check are integers that are converted to \<open>unsigned int\<close> exactly where the
  C++ arithmetic converts them.

  An event is an object with a time and a forward link.  The link is represented by the
  position of the event in the list of its bucket; the address of the object, which the
  code compares with \<open>==\<close>, is the field \<open>eid\<close>.

  Every operation returns a sum: \<open>Inl\<close> is a failed \<open>assert\<close> or an operation whose
  behaviour C++ leaves undefined (a shift by at least the width of its operand, an array
  index out of range), \<open>Inr\<close> is a normal return.  A loop that may run forever is a
  \<open>partial_function\<close> in the option monad: \<open>None\<close> means that the call never returns.
\<close>

type_synonym uint = "32 word"
type_synonym TimeType = "64 word"
type_synonym uchar = "8 word"

record event =
  eid :: nat
  time :: TimeType

datatype error = AssertionFailed | UndefinedBehaviour

subsection \<open>EventList: the sorted singly linked list of one bucket\<close>

text \<open>
  The scanning loop of \<open>EventList::push\<close>, entered with \<open>prevToCurr\<close> and the nodes
  after it; the result is the chain from \<open>prevToCurr\<close> on.
\<close>

fun push_scan :: "event \<Rightarrow> event \<Rightarrow> event list \<Rightarrow> error + event list" where
  "push_scan subject prevToCurr [] = Inr [prevToCurr, subject]"
| "push_scan subject prevToCurr (n # ns) =
     (if time n < time subject then
        (if time prevToCurr \<le> time n then
           (case push_scan subject n ns of
              Inl err \<Rightarrow> Inl err
            | Inr chain \<Rightarrow> Inr (prevToCurr # chain))
         else Inl AssertionFailed)
      else if eid n = eid subject then Inl AssertionFailed
      else Inr (prevToCurr # subject # n # ns))"

definition EventList_push :: "event list \<Rightarrow> event \<Rightarrow> error + event list" where
  "EventList_push root subject =
     (case root of
        [] \<Rightarrow> Inr [subject]
      | r # rest \<Rightarrow>
          if time r \<ge> time subject then
            (if eid r = eid subject then Inl AssertionFailed else Inr (subject # r # rest))
          else push_scan subject r rest)"

definition EventList_pop :: "event list \<Rightarrow> event option \<times> event list" where
  "EventList_pop root = (case root of [] \<Rightarrow> (None, []) | r # rest \<Rightarrow> (Some r, rest))"

definition EventList_getMinTime :: "event list \<Rightarrow> error + TimeType" where
  "EventList_getMinTime root = (case root of [] \<Rightarrow> Inl AssertionFailed | r # rest \<Rightarrow> Inr (time r))"

definition EventList_isEmpty :: "event list \<Rightarrow> bool" where
  "EventList_isEmpty root = (root = [])"

text \<open>
  The loop of \<open>EventList::remove\<close>.  Its body never assigns \<open>prevToCurr\<close>, so the
  recursive call has the arguments of the call itself.
\<close>

partial_function (option) remove_scan ::
  "event \<Rightarrow> event \<Rightarrow> event list \<Rightarrow> (error + bool \<times> event list) option" where
  "remove_scan subject prevToCurr rest =
     (case rest of
        [] \<Rightarrow> Some (Inr (False, [prevToCurr]))
      | n # ns \<Rightarrow>
          if \<not> time prevToCurr \<le> time n then Some (Inl AssertionFailed)
          else if eid n = eid subject then Some (Inr (True, prevToCurr # ns))
          else remove_scan subject prevToCurr rest)"

definition EventList_remove :: "event list \<Rightarrow> event \<Rightarrow> (error + bool \<times> event list) option" where
  "EventList_remove root subject =
     (case root of
        [] \<Rightarrow> Some (Inr (False, []))
      | r # rest \<Rightarrow>
          if eid r = eid subject then Some (Inr (True, rest))
          else remove_scan subject r rest)"

subsection \<open>CalQCore: the bucket table\<close>

record CalQCore =
  bins :: "event list list"
  binSize :: uint
  numBins :: uint
  divideShift :: uint
  moduloMask :: uint
  logTableSize :: uint
  currBin :: uint
  nextYearStart :: TimeType
  numEvents :: uint
  lastPopped :: TimeType

definition getSlot :: "CalQCore \<Rightarrow> TimeType \<Rightarrow> uint" where
  "getSlot q t = ucast (drop_bit (unat (divideShift q)) (t AND ucast (moduloMask q)))"

text \<open>
  The constructor.  \<open>1 << n\<close> is a shift of an \<open>int\<close>: undefined from \<open>n = 32\<close> on.
\<close>

definition CalQCore_new :: "uchar \<Rightarrow> uchar \<Rightarrow> TimeType \<Rightarrow> error + CalQCore" where
  "CalQCore_new logBinSize logNumBins startTime =
     (if 32 \<le> unat logBinSize \<or> 32 \<le> unat logNumBins then Inl UndefinedBehaviour
      else
        let bs = (push_bit (unat logBinSize) 1 :: uint);
            nb = (push_bit (unat logNumBins) 1 :: uint);
            q = \<lparr> bins = replicate (unat nb) [],
                  binSize = bs,
                  numBins = nb,
                  divideShift = ucast logBinSize,
                  moduloMask = bs * nb - 1,
                  logTableSize = ucast logNumBins,
                  currBin = 0,
                  nextYearStart =
                    (drop_bit (unat logBinSize + unat logNumBins) startTime + 1)
                      * ucast bs * ucast nb,
                  numEvents = 0,
                  lastPopped = startTime \<rparr>
        in Inr (q\<lparr>currBin := getSlot q startTime\<rparr>))"

definition CalQCore_push :: "CalQCore \<Rightarrow> event \<Rightarrow> error + CalQCore" where
  "CalQCore_push q subject =
     (if \<not> time subject \<ge> lastPopped q then Inl AssertionFailed
      else
        let i = unat (getSlot q (time subject)) in
        if length (bins q) \<le> i then Inl UndefinedBehaviour
        else
          (case EventList_push (bins q ! i) subject of
             Inl err \<Rightarrow> Inl err
           | Inr b \<Rightarrow> Inr (q\<lparr>numEvents := numEvents q + 1, bins := (bins q)[i := b]\<rparr>)))"

text \<open>The step that ends an iteration of the loop of \<open>CalQCore::pop\<close>.\<close>

definition advance :: "CalQCore \<Rightarrow> CalQCore" where
  "advance q =
     (if currBin q + 1 = numBins q
      then q\<lparr>currBin := 0, nextYearStart := nextYearStart q + ucast (moduloMask q + 1)\<rparr>
      else q\<lparr>currBin := currBin q + 1\<rparr>)"

text \<open>
  The \<open>while (true)\<close> loop of \<open>CalQCore::pop\<close>, with the two accumulators that the
  caller passes by reference.
\<close>

partial_function (option) pop_loop ::
  "CalQCore \<Rightarrow> uint \<Rightarrow> uint \<Rightarrow> (error + event option \<times> CalQCore \<times> uint \<times> uint) option" where
  "pop_loop q probeLenAcc numFutEvsAcc =
     (if length (bins q) \<le> unat (currBin q) then Some (Inl UndefinedBehaviour)
      else
        (case bins q ! unat (currBin q) of
           [] \<Rightarrow> pop_loop (advance q) (probeLenAcc + 1) numFutEvsAcc
         | r # rest \<Rightarrow>
             if time r < nextYearStart q then
               (if lastPopped q \<le> time r
                then Some (Inr (Some r,
                       q\<lparr>lastPopped := time r, bins := (bins q)[unat (currBin q) := rest]\<rparr>,
                       probeLenAcc, numFutEvsAcc))
                else Some (Inl AssertionFailed))
             else pop_loop (advance q) (probeLenAcc + 1) (numFutEvsAcc + 1)))"

definition CalQCore_pop ::
  "CalQCore \<Rightarrow> uint \<Rightarrow> uint \<Rightarrow> (error + event option \<times> CalQCore \<times> uint \<times> uint) option" where
  "CalQCore_pop q probeLenAcc numFutEvsAcc =
     (if numEvents q = 0 then Some (Inr (None, q, probeLenAcc, numFutEvsAcc))
      else pop_loop (q\<lparr>numEvents := numEvents q - 1\<rparr>) probeLenAcc numFutEvsAcc)"

definition CalQCore_remove :: "CalQCore \<Rightarrow> event \<Rightarrow> (error + bool \<times> CalQCore) option" where
  "CalQCore_remove q subject =
     (let i = unat (getSlot q (time subject)) in
      if length (bins q) \<le> i then Some (Inl UndefinedBehaviour)
      else
        (case EventList_remove (bins q ! i) subject of
           None \<Rightarrow> None
         | Some (Inl err) \<Rightarrow> Some (Inl err)
         | Some (Inr (found, b)) \<Rightarrow> Some (Inr (found, q\<lparr>bins := (bins q)[i := b]\<rparr>))))"

text \<open>
  \<open>CalQCore::consume\<close>: the inner loop pops one source bucket empty and pushes each event
  into the destination, the outer loop runs over the source's buckets.
\<close>

fun drain_bin :: "event list \<Rightarrow> CalQCore \<Rightarrow> error + CalQCore" where
  "drain_bin [] dst = Inr dst"
| "drain_bin (e # es) dst =
     (case CalQCore_push dst e of Inl err \<Rightarrow> Inl err | Inr dst' \<Rightarrow> drain_bin es dst')"

fun drain_bins :: "event list list \<Rightarrow> CalQCore \<Rightarrow> error + CalQCore" where
  "drain_bins [] dst = Inr dst"
| "drain_bins (b # bs) dst =
     (case drain_bin b dst of Inl err \<Rightarrow> Inl err | Inr dst' \<Rightarrow> drain_bins bs dst')"

definition consume :: "CalQCore \<Rightarrow> CalQCore \<Rightarrow> error + CalQCore" where
  "consume dst source = drain_bins (take (unat (numBins source)) (bins source)) dst"

subsection \<open>MyCalQueue: the self-tuning queue\<close>

record MyCalQueue =
  queue :: CalQCore
  popProbeLenSum :: uint
  popFutureEventSum :: uint
  popCounter :: uint

definition MyCalQueue_new :: "TimeType \<Rightarrow> uint \<Rightarrow> error + MyCalQueue" where
  "MyCalQueue_new startTime initLogNumEvents =
     (case CalQCore_new 0 (ucast (initLogNumEvents + 1)) startTime of
        Inl err \<Rightarrow> Inl err
      | Inr q \<Rightarrow> Inr \<lparr> queue = q, popProbeLenSum = 0, popFutureEventSum = 0, popCounter = 0 \<rparr>)"

definition MyCalQueue_push :: "MyCalQueue \<Rightarrow> event \<Rightarrow> error + uint \<times> MyCalQueue" where
  "MyCalQueue_push mq newEvent =
     (case CalQCore_push (queue mq) newEvent of
        Inl err \<Rightarrow> Inl err
      | Inr q \<Rightarrow> Inr (numEvents q, mq\<lparr>queue := q\<rparr>))"

text \<open>\<open>x >> n\<close> on \<open>unsigned int\<close>: undefined when \<open>n\<close> is 32 or more.\<close>

definition shr :: "uint \<Rightarrow> uint \<Rightarrow> error + uint" where
  "shr x n = (if 32 \<le> unat n then Inl UndefinedBehaviour else Inr (drop_bit (unat n) x))"

text \<open>
  The two adjustment loops of the retuning check.  \<open>base\<close> is \<open>getLogNumBins()\<close> for
  the bin size and \<open>getLogNumBins() - 2\<close> for the year length; \<open>change\<close> is the
  \<open>int\<close> that the loop steps, added to the unsigned \<open>base\<close> as C++ does.
\<close>

lemma dec_measure:
  "unat (c::uint) < 32 \<Longrightarrow> (if unat (c - 1) < 32 then unat (c - 1) + 1 else 0) < unat c + 1"
proof (cases "c = 0")
  case True
  then have "\<not> unat (c - 1) < 32"
    by (simp add: unsigned_minus_1_eq_mask mask_eq_exp_minus_1)
  then show ?thesis by simp
next
  case False
  then have "unat (c - 1) = unat c - 1" "0 < unat c"
    by (simp_all add: unat_minus_one unat_gt_0)
  then show ?thesis by simp
qed

lemma inc_measure: "unat (c::uint) < 32 \<Longrightarrow> 32 - unat (c + 1) < 32 - unat c"
proof -
  assume a: "unat c < 32"
  then have "unat (c + 1) = unat c + 1"
    by (simp add: unat_word_ariths)
  with a show ?thesis by simp
qed

function shift_down :: "uint \<Rightarrow> uint \<Rightarrow> int \<Rightarrow> error + int" where
  "shift_down acc base change =
     (case shr acc (base + word_of_int change) of
        Inl err \<Rightarrow> Inl err
      | Inr v \<Rightarrow> if v = 0 then shift_down acc base (change - 1) else Inr change)"
  by pat_completeness auto
termination
proof (relation "measure (\<lambda>(acc, base, change).
         let c = unat (base + (word_of_int change :: uint)) in if c < 32 then c + 1 else 0)")
  fix acc base :: uint and change :: int and v :: uint
  assume "shr acc (base + word_of_int change) = Inr v"
  then have "unat (base + (word_of_int change :: uint)) < 32"
    by (auto simp: shr_def split: if_splits)
  then show "((acc, base, change - 1), (acc, base, change)) \<in> measure (\<lambda>(acc, base, change).
         let c = unat (base + (word_of_int change :: uint)) in if c < 32 then c + 1 else 0)"
    using dec_measure[of "base + word_of_int change"]
    by (simp add: Let_def add_diff_eq split: if_splits)
qed simp

function shift_up :: "uint \<Rightarrow> uint \<Rightarrow> int \<Rightarrow> error + int" where
  "shift_up acc base change =
     (case shr acc (base + word_of_int change) of
        Inl err \<Rightarrow> Inl err
      | Inr v \<Rightarrow> if 3 < v then shift_up acc base (change + 1) else Inr change)"
  by pat_completeness auto
termination
proof (relation "measure (\<lambda>(acc, base, change). 32 - unat (base + (word_of_int change :: uint)))")
  fix acc base :: uint and change :: int and v :: uint
  assume "shr acc (base + word_of_int change) = Inr v"
  then have "unat (base + (word_of_int change :: uint)) < 32"
    by (auto simp: shr_def split: if_splits)
  then show "((acc, base, change + 1), (acc, base, change)) \<in>
      measure (\<lambda>(acc, base, change). 32 - unat (base + (word_of_int change :: uint)))"
    using inc_measure[of "base + word_of_int change"] by (simp add: add.assoc)
qed simp

definition tune :: "uint \<Rightarrow> uint \<Rightarrow> error + int" where
  "tune acc base =
     (case shift_down acc base 0 of Inl err \<Rightarrow> Inl err | Inr change \<Rightarrow> shift_up acc base change)"

text \<open>
  The body of \<open>if (binSizeLogChange || numBinsLogChange)\<close>: a new core at the current
  time, which consumes the old one and replaces it.
\<close>

definition rebuild :: "CalQCore \<Rightarrow> int \<Rightarrow> int \<Rightarrow> error + CalQCore" where
  "rebuild q binSizeLogChange numBinsLogChange =
     (case CalQCore_new (ucast (divideShift q + word_of_int binSizeLogChange))
                        (ucast (logTableSize q + word_of_int numBinsLogChange))
                        (lastPopped q) of
        Inl err \<Rightarrow> Inl err
      | Inr newQueue \<Rightarrow> consume newQueue q)"

definition retune :: "MyCalQueue \<Rightarrow> error + MyCalQueue" where
  "retune mq =
     (case tune (popProbeLenSum mq) (logTableSize (queue mq)) of
        Inl err \<Rightarrow> Inl err
      | Inr binSizeLogChange \<Rightarrow>
          (case tune (popFutureEventSum mq) (logTableSize (queue mq) - 2) of
             Inl err \<Rightarrow> Inl err
           | Inr yearLenLogChange \<Rightarrow>
               let numBinsLogChange = yearLenLogChange - binSizeLogChange in
               if binSizeLogChange \<noteq> 0 \<or> numBinsLogChange \<noteq> 0 then
                 (case rebuild (queue mq) binSizeLogChange numBinsLogChange of
                    Inl err \<Rightarrow> Inl err
                  | Inr newQueue \<Rightarrow>
                      Inr (mq\<lparr>queue := newQueue, popProbeLenSum := 0,
                              popFutureEventSum := 0, popCounter := 0\<rparr>))
               else Inr (mq\<lparr>popProbeLenSum := 0, popFutureEventSum := 0, popCounter := 0\<rparr>)))"

definition MyCalQueue_pop :: "MyCalQueue \<Rightarrow> (error + event option \<times> MyCalQueue) option" where
  "MyCalQueue_pop mq =
     (case CalQCore_pop (queue mq) (popProbeLenSum mq) (popFutureEventSum mq) of
        None \<Rightarrow> None
      | Some (Inl err) \<Rightarrow> Some (Inl err)
      | Some (Inr (retval, q, probeLen, futureEvents)) \<Rightarrow>
          let mq' = mq\<lparr>queue := q, popProbeLenSum := probeLen,
                       popFutureEventSum := futureEvents, popCounter := popCounter mq + 1\<rparr>
          in if popCounter mq' = numBins q then
               (case retune mq' of
                  Inl err \<Rightarrow> Some (Inl err)
                | Inr mq'' \<Rightarrow> Some (Inr (retval, mq'')))
             else Some (Inr (retval, mq')))"

definition MyCalQueue_remove :: "MyCalQueue \<Rightarrow> event \<Rightarrow> (error + bool \<times> MyCalQueue) option" where
  "MyCalQueue_remove mq subject =
     (case CalQCore_remove (queue mq) subject of
        None \<Rightarrow> None
      | Some (Inl err) \<Rightarrow> Some (Inl err)
      | Some (Inr (found, q)) \<Rightarrow> Some (Inr (found, mq\<lparr>queue := q\<rparr>)))"

definition MyCalQueue_getNumEvents :: "MyCalQueue \<Rightarrow> uint" where
  "MyCalQueue_getNumEvents mq = numEvents (queue mq)"

subsection \<open>Sequences of operations\<close>

text \<open>
  A driver of the queue: a list of operations run in order.  The run stops at the first
  failed assertion or undefined operation, and does not return when an operation does
  not.  Its trace records, for each operation, the queue before it, its result and the
  queue after it.
\<close>

datatype op = Push event | Pop | Remove event

datatype result = Pushed | Popped "event option" | Removed bool

type_synonym core_state = "CalQCore \<times> uint \<times> uint"

fun core_step :: "op \<Rightarrow> core_state \<Rightarrow> (error + result \<times> core_state) option" where
  "core_step (Push e) (q, p, f) =
     (case CalQCore_push q e of
        Inl err \<Rightarrow> Some (Inl err)
      | Inr q' \<Rightarrow> Some (Inr (Pushed, (q', p, f))))"
| "core_step Pop (q, p, f) =
     (case CalQCore_pop q p f of
        None \<Rightarrow> None
      | Some (Inl err) \<Rightarrow> Some (Inl err)
      | Some (Inr (r, q', p', f')) \<Rightarrow> Some (Inr (Popped r, (q', p', f'))))"
| "core_step (Remove e) (q, p, f) =
     (case CalQCore_remove q e of
        None \<Rightarrow> None
      | Some (Inl err) \<Rightarrow> Some (Inl err)
      | Some (Inr (found, q')) \<Rightarrow> Some (Inr (Removed found, (q', p, f))))"

fun core_run ::
  "op list \<Rightarrow> core_state \<Rightarrow>
     (error + (CalQCore \<times> result \<times> CalQCore) list \<times> core_state) option" where
  "core_run [] s = Some (Inr ([], s))"
| "core_run (x # xs) s =
     (case core_step x s of
        None \<Rightarrow> None
      | Some (Inl err) \<Rightarrow> Some (Inl err)
      | Some (Inr (r, s')) \<Rightarrow>
          (case core_run xs s' of
             None \<Rightarrow> None
           | Some (Inl err) \<Rightarrow> Some (Inl err)
           | Some (Inr (tr, s'')) \<Rightarrow> Some (Inr ((fst s, r, fst s') # tr, s''))))"

fun my_step :: "op \<Rightarrow> MyCalQueue \<Rightarrow> (error + result \<times> MyCalQueue) option" where
  "my_step (Push e) mq =
     (case MyCalQueue_push mq e of
        Inl err \<Rightarrow> Some (Inl err)
      | Inr (n, mq') \<Rightarrow> Some (Inr (Pushed, mq')))"
| "my_step Pop mq =
     (case MyCalQueue_pop mq of
        None \<Rightarrow> None
      | Some (Inl err) \<Rightarrow> Some (Inl err)
      | Some (Inr (r, mq')) \<Rightarrow> Some (Inr (Popped r, mq')))"
| "my_step (Remove e) mq =
     (case MyCalQueue_remove mq e of
        None \<Rightarrow> None
      | Some (Inl err) \<Rightarrow> Some (Inl err)
      | Some (Inr (found, mq')) \<Rightarrow> Some (Inr (Removed found, mq')))"

fun my_run ::
  "op list \<Rightarrow> MyCalQueue \<Rightarrow>
     (error + (MyCalQueue \<times> result \<times> MyCalQueue) list \<times> MyCalQueue) option" where
  "my_run [] s = Some (Inr ([], s))"
| "my_run (x # xs) s =
     (case my_step x s of
        None \<Rightarrow> None
      | Some (Inl err) \<Rightarrow> Some (Inl err)
      | Some (Inr (r, s')) \<Rightarrow>
          (case my_run xs s' of
             None \<Rightarrow> None
           | Some (Inl err) \<Rightarrow> Some (Inl err)
           | Some (Inr (tr, s'')) \<Rightarrow> Some (Inr ((s, r, s') # tr, s''))))"

text \<open>The events that the pops of a trace returned, in order.\<close>

fun popped :: "('s \<times> result \<times> 's) list \<Rightarrow> event list" where
  "popped [] = []"
| "popped ((s, Popped (Some e), s') # tr) = e # popped tr"
| "popped ((s, r, s') # tr) = popped tr"

section \<open>Two concrete scenarios\<close>

lemmas eval_defs =
  CalQCore_new_def CalQCore_push_def CalQCore_pop_def getSlot_def EventList_push_def
  advance_def MyCalQueue_new_def MyCalQueue_push_def MyCalQueue_pop_def retune_def tune_def
  shr_def Let_def

lemma new_0_2_0:
  "CalQCore_new 0 2 0 =
     Inr \<lparr>bins = [[], [], [], []], binSize = 1, numBins = 4, divideShift = 0, moduloMask = 3,
          logTableSize = 2, currBin = 0, nextYearStart = 4, numEvents = 0, lastPopped = 0\<rparr>"
  by (simp add: eval_defs) (simp add: numeral_eq_Suc)

lemma new_my_0_1:
  "MyCalQueue_new 0 1 =
     Inr \<lparr>queue =
            \<lparr>bins = [[], [], [], []], binSize = 1, numBins = 4, divideShift = 0, moduloMask = 3,
             logTableSize = 2, currBin = 0, nextYearStart = 4, numEvents = 0, lastPopped = 0\<rparr>,
          popProbeLenSum = 0, popFutureEventSum = 0, popCounter = 0\<rparr>"
  by (simp add: MyCalQueue_new_def new_0_2_0)

text \<open>
  C7 as the code runs it.  Bin size 1, four bins, start time 0 (the core made by
  \<open>CalQCore_new 0 2 0\<close>, which is also the core of \<open>MyCalQueue_new 0 1\<close>); the events of
  times 5, 1, 3, 1 are pushed in this order (their \<open>eid\<close>s are 1, 2, 3, 4) and four pops
  follow.  The pops return the times 1, 1, 3, 5.  Of the two events of time 1 the one
  pushed last (\<open>eid\<close> 4) is returned first: \<open>EventList::push\<close> puts a new event before the
  events of the same time.  The current time before the third pop, that is after the two
  pops of time 1, is 1.  The self-tuning queue returns the same events.
\<close>

theorem scenario_5_1_3_1:
  "\<exists>q0 tr s mq0 mtr ms.
     CalQCore_new 0 2 0 = Inr q0 \<and> binSize q0 = 1 \<and> numBins q0 = 4 \<and> lastPopped q0 = 0 \<and>
     core_run
       [Push \<lparr>eid = 1, time = 5\<rparr>, Push \<lparr>eid = 2, time = 1\<rparr>, Push \<lparr>eid = 3, time = 3\<rparr>,
        Push \<lparr>eid = 4, time = 1\<rparr>, Pop, Pop, Pop, Pop] (q0, 0, 0)
       = Some (Inr (tr, s)) \<and>
     popped tr = [\<lparr>eid = 4, time = 1\<rparr>, \<lparr>eid = 2, time = 1\<rparr>, \<lparr>eid = 3, time = 3\<rparr>,
                  \<lparr>eid = 1, time = 5\<rparr>] \<and>
     map time (popped tr) = [1, 1, 3, 5] \<and>
     map (lastPopped \<circ> fst) tr = [0, 0, 0, 0, 0, 1, 1, 3] \<and>
     lastPopped (fst s) = 5 \<and>
     MyCalQueue_new 0 1 = Inr mq0 \<and>
     my_run
       [Push \<lparr>eid = 1, time = 5\<rparr>, Push \<lparr>eid = 2, time = 1\<rparr>, Push \<lparr>eid = 3, time = 3\<rparr>,
        Push \<lparr>eid = 4, time = 1\<rparr>, Pop, Pop, Pop, Pop] mq0
       = Some (Inr (mtr, ms)) \<and>
     popped mtr = popped tr \<and>
     map (lastPopped \<circ> queue \<circ> fst) mtr = [0, 0, 0, 0, 0, 1, 1, 3]"
  unfolding new_0_2_0 new_my_0_1
  by (simp add: eval_defs pop_loop.simps)

text \<open>
  C7 as the claim states it, with the two events of time 1 returned in the order of their
  pushes (\<open>eid\<close> 2 before \<open>eid\<close> 4): this is not what the run returns.
\<close>

theorem scenario_5_1_3_1_push_order_refuted:
  "\<not> (\<exists>q0 tr s.
     CalQCore_new 0 2 0 = Inr q0 \<and>
     core_run
       [Push \<lparr>eid = 1, time = 5\<rparr>, Push \<lparr>eid = 2, time = 1\<rparr>, Push \<lparr>eid = 3, time = 3\<rparr>,
        Push \<lparr>eid = 4, time = 1\<rparr>, Pop, Pop, Pop, Pop] (q0, 0, 0)
       = Some (Inr (tr, s)) \<and>
     popped tr = [\<lparr>eid = 2, time = 1\<rparr>, \<lparr>eid = 4, time = 1\<rparr>, \<lparr>eid = 3, time = 3\<rparr>,
                  \<lparr>eid = 1, time = 5\<rparr>])"
  unfolding new_0_2_0
  by (simp add: eval_defs pop_loop.simps)

text \<open>
  The scenario of C8 for a core with \<open>2 ^ logBinSize\<close> time units per bin and
  \<open>2 ^ logNumBins\<close> bins, started at time 0: the year length is 16, one event of time 100
  is pushed, and the first pop returns this event, after it has met it as an event of a
  future year six times (once in each of the years that start at 0, 16, ..., 80) and has
  moved \<open>nextYearStart\<close> from 16 by six year lengths to 112; the queue is then empty and a
  second pop returns nothing.
\<close>

definition future_year_scenario :: "uchar \<Rightarrow> uchar \<Rightarrow> bool" where
  "future_year_scenario logBinSize logNumBins =
     (case CalQCore_new logBinSize logNumBins 0 of
        Inl err \<Rightarrow> False
      | Inr q0 \<Rightarrow>
          moduloMask q0 + 1 = 16 \<and> nextYearStart q0 = 16 \<and>
          (case CalQCore_push q0 \<lparr>eid = 1, time = 100\<rparr> of
             Inl err \<Rightarrow> False
           | Inr q1 \<Rightarrow>
               (case CalQCore_pop q1 0 0 of
                  Some (Inr (Some e, q2, probes, futures)) \<Rightarrow>
                    e = \<lparr>eid = 1, time = 100\<rparr> \<and> futures = 6 \<and>
                    nextYearStart q2 = 16 + 6 * 16 \<and> lastPopped q2 = 100 \<and>
                    concat (bins q2) = [] \<and>
                    CalQCore_pop q2 probes futures = Some (Inr (None, q2, probes, futures))
                | _ \<Rightarrow> False)))"

lemma future_year_0_4: "future_year_scenario 0 4"
  unfolding future_year_scenario_def
  apply (simp add: CalQCore_new_def getSlot_def Let_def)
  apply (simp add: numeral_eq_Suc)?
  apply (simp add: eval_defs pop_loop.simps)
  done

lemma future_year_1_3: "future_year_scenario 1 3"
  unfolding future_year_scenario_def
  apply (simp add: CalQCore_new_def getSlot_def Let_def)
  apply (simp add: numeral_eq_Suc)?
  apply (simp add: eval_defs pop_loop.simps)
  done

lemma future_year_2_2: "future_year_scenario 2 2"
  unfolding future_year_scenario_def
  apply (simp add: CalQCore_new_def getSlot_def Let_def)
  apply (simp add: numeral_eq_Suc)?
  apply (simp add: eval_defs pop_loop.simps)
  done

lemma future_year_3_1: "future_year_scenario 3 1"
  unfolding future_year_scenario_def
  apply (simp add: CalQCore_new_def getSlot_def Let_def)
  apply (simp add: numeral_eq_Suc)?
  apply (simp add: eval_defs pop_loop.simps)
  done

lemma future_year_4_0: "future_year_scenario 4 0"
  unfolding future_year_scenario_def
  apply (simp add: CalQCore_new_def getSlot_def Let_def)
  apply (simp add: numeral_eq_Suc)?
  apply (simp add: eval_defs pop_loop.simps)
  done

lemma future_year_my:
  "\<exists>mq0 tr mq.
     MyCalQueue_new 0 3 = Inr mq0 \<and>
     my_run [Push \<lparr>eid = 1, time = 100\<rparr>, Pop, Pop] mq0 = Some (Inr (tr, mq)) \<and>
     map (fst \<circ> snd) tr = [Pushed, Popped (Some \<lparr>eid = 1, time = 100\<rparr>), Popped None] \<and>
     nextYearStart (queue mq) = 112 \<and> popFutureEventSum mq = 6"
  apply (simp add: MyCalQueue_new_def CalQCore_new_def getSlot_def Let_def)
  apply (simp add: numeral_eq_Suc)?
  apply (simp add: eval_defs pop_loop.simps)
  done

text \<open>
  C8: in each of the five cores whose year length is 16, and in the self-tuning queue with
  16 bins of size 1, the event of time 100 is seen as an event of a future year, is not
  returned before \<open>nextYearStart\<close> has passed 100, and is returned once, by the first pop.
\<close>

theorem future_year_event_100:
  "future_year_scenario 0 4 \<and> future_year_scenario 1 3 \<and> future_year_scenario 2 2 \<and>
   future_year_scenario 3 1 \<and> future_year_scenario 4 0 \<and>
   (\<exists>mq0 tr mq.
     MyCalQueue_new 0 3 = Inr mq0 \<and>
     my_run [Push \<lparr>eid = 1, time = 100\<rparr>, Pop, Pop] mq0 = Some (Inr (tr, mq)) \<and>
     map (fst \<circ> snd) tr = [Pushed, Popped (Some \<lparr>eid = 1, time = 100\<rparr>), Popped None] \<and>
     nextYearStart (queue mq) = 112 \<and> popFutureEventSum mq = 6)"
  using future_year_0_4 future_year_1_3 future_year_2_2 future_year_3_1 future_year_4_0
    future_year_my
  by blast

section \<open>Removal\<close>

lemma remove_scan_never_returns:
  assumes "time prevToCurr \<le> time n" and "eid n \<noteq> eid subject"
  shows "remove_scan subject prevToCurr (n # ns) = None"
proof -
  have "remove_scan s p rest = Some y \<Longrightarrow>
        \<not> (\<exists>n ns. rest = n # ns \<and> time p \<le> time n \<and> eid n \<noteq> eid s)" for s p rest y
    by (rule remove_scan.raw_induct[where P = "\<lambda>s p rest y.
          \<not> (\<exists>n ns. rest = n # ns \<and> time p \<le> time n \<and> eid n \<noteq> eid s)"])
       (fastforce split: list.splits if_splits)+
  with assms show ?thesis
    by (cases "remove_scan subject prevToCurr (n # ns)") fastforce+
qed

lemma remove_scan_returns:
  "remove_scan subject prevToCurr rest = Some (Inr (found, chain)) \<Longrightarrow>
   (found \<longrightarrow> length chain = length rest) \<and> (\<not> found \<longrightarrow> chain = prevToCurr # rest)"
  by (rule remove_scan.raw_induct[where P = "\<lambda>s p rest y. \<forall>found chain. y = Inr (found, chain) \<longrightarrow>
        (found \<longrightarrow> length chain = length rest) \<and> (\<not> found \<longrightarrow> chain = p # rest)", rule_format])
     (auto split: list.splits if_splits)

lemma EventList_remove_returns:
  "EventList_remove root subject = Some (Inr (found, root')) \<Longrightarrow>
   (found \<longrightarrow> Suc (length root') = length root) \<and> (\<not> found \<longrightarrow> root' = root)"
  by (auto simp: EventList_remove_def split: list.splits if_splits dest: remove_scan_returns)

lemma length_concat_update:
  "i < length xs \<Longrightarrow> length (concat (xs[i := b])) + length (xs ! i) = length (concat xs) + length b"
  by (induction xs arbitrary: i) (auto simp: nth_Cons' split: nat.splits)

lemma CalQCore_remove_returns:
  assumes "CalQCore_remove q subject = Some (Inr (found, q'))"
  shows "numEvents q' = numEvents q"
    and "found \<Longrightarrow> Suc (length (concat (bins q'))) = length (concat (bins q))"
    and "\<not> found \<Longrightarrow> q' = q"
proof -
  let ?i = "unat (getSlot q (time subject))"
  from assms obtain b where
    i: "?i < length (bins q)" and
    r: "EventList_remove (bins q ! ?i) subject = Some (Inr (found, b))" and
    q': "q' = q\<lparr>bins := (bins q)[?i := b]\<rparr>"
    by (auto simp: CalQCore_remove_def Let_def split: if_splits option.splits sum.splits)
  from q' show "numEvents q' = numEvents q" by simp
  from EventList_remove_returns[OF r] length_concat_update[OF i, of b] q'
  show "found \<Longrightarrow> Suc (length (concat (bins q'))) = length (concat (bins q))"
    by simp
  from EventList_remove_returns[OF r] q'
  show "\<not> found \<Longrightarrow> q' = q"
    by simp
qed

text \<open>
  A core with three events in one bucket: four bins of size 1, and the events of times
  0, 4, 8, which all fall into bin 0.
\<close>

definition three_in_a_bin :: CalQCore where
  "three_in_a_bin =
     \<lparr>bins = [[\<lparr>eid = 1, time = 0\<rparr>, \<lparr>eid = 2, time = 4\<rparr>, \<lparr>eid = 3, time = 8\<rparr>], [], [], []],
      binSize = 1, numBins = 4, divideShift = 0, moduloMask = 3, logTableSize = 2,
      currBin = 0, nextYearStart = 4, numEvents = 3, lastPopped = 0\<rparr>"

lemma three_in_a_bin_reached:
  "\<exists>q0 tr. CalQCore_new 0 2 0 = Inr q0 \<and>
     core_run [Push \<lparr>eid = 3, time = 8\<rparr>, Push \<lparr>eid = 2, time = 4\<rparr>, Push \<lparr>eid = 1, time = 0\<rparr>]
       (q0, 0, 0) = Some (Inr (tr, (three_in_a_bin, 0, 0)))"
  unfolding new_0_2_0 three_in_a_bin_def
  by (simp add: eval_defs)

text \<open>
  C4 fails on the code.  The loop of \<open>EventList::remove\<close> compares the node after
  \<open>prevToCurr\<close> with the subject and never moves \<open>prevToCurr\<close>: when the bucket has two
  nodes or more and the subject is neither the first nor the second, the call does not
  return.  Here the core is reached by three pushes; removing the pending third event of
  bin 0 does not return, and removing an event that is not in the queue does not return
  either (it should return false).
\<close>

theorem remove_third_event_never_returns:
  "(\<exists>q0 tr. CalQCore_new 0 2 0 = Inr q0 \<and>
     core_run [Push \<lparr>eid = 3, time = 8\<rparr>, Push \<lparr>eid = 2, time = 4\<rparr>, Push \<lparr>eid = 1, time = 0\<rparr>]
       (q0, 0, 0) = Some (Inr (tr, (three_in_a_bin, 0, 0)))) \<and>
   \<lparr>eid = 3, time = 8\<rparr> \<in> set (concat (bins three_in_a_bin)) \<and>
   CalQCore_remove three_in_a_bin \<lparr>eid = 3, time = 8\<rparr> = None \<and>
   \<lparr>eid = 4, time = 12\<rparr> \<notin> set (concat (bins three_in_a_bin)) \<and>
   CalQCore_remove three_in_a_bin \<lparr>eid = 4, time = 12\<rparr> = None"
proof -
  have a: "remove_scan \<lparr>eid = 3, time = 8\<rparr> \<lparr>eid = 1, time = 0\<rparr>
             [\<lparr>eid = 2, time = 4\<rparr>, \<lparr>eid = 3, time = 8\<rparr>] = None"
    by (rule remove_scan_never_returns) simp_all
  have b: "remove_scan \<lparr>eid = 4, time = 12\<rparr> \<lparr>eid = 1, time = 0\<rparr>
             [\<lparr>eid = 2, time = 4\<rparr>, \<lparr>eid = 3, time = 8\<rparr>] = None"
    by (rule remove_scan_never_returns) simp_all
  show ?thesis
    using three_in_a_bin_reached a b
    by (simp add: three_in_a_bin_def CalQCore_remove_def EventList_remove_def getSlot_def)
qed

text \<open>
  C10: a call of \<open>remove\<close> that returns leaves \<open>numEvents\<close> as it was, also when it
  has unlinked an event; if \<open>numEvents\<close> was the number of events in the buckets before a
  successful removal, it is that number plus one afterwards.
\<close>

theorem remove_leaves_numEvents:
  assumes "MyCalQueue_remove mq subject = Some (Inr (found, mq'))"
  shows "MyCalQueue_getNumEvents mq' = MyCalQueue_getNumEvents mq \<and>
         (found \<and> unat (numEvents (queue mq)) = length (concat (bins (queue mq))) \<longrightarrow>
            unat (numEvents (queue mq')) = length (concat (bins (queue mq'))) + 1)"
proof -
  from assms obtain q' where
    r: "CalQCore_remove (queue mq) subject = Some (Inr (found, q'))" and mq': "mq' = mq\<lparr>queue := q'\<rparr>"
    by (auto simp: MyCalQueue_remove_def split: option.splits sum.splits)
  from CalQCore_remove_returns(1,2)[OF r] mq' show ?thesis
    by (auto simp: MyCalQueue_getNumEvents_def)
qed

theorem remove_leaves_numEvents_witness:
  "\<exists>mq'. MyCalQueue_remove \<lparr>queue = three_in_a_bin, popProbeLenSum = 0, popFutureEventSum = 0,
            popCounter = 0\<rparr> \<lparr>eid = 2, time = 4\<rparr> = Some (Inr (True, mq')) \<and>
     MyCalQueue_getNumEvents mq' = 3 \<and> length (concat (bins (queue mq'))) = 2"
proof -
  let ?mq = "\<lparr>queue = three_in_a_bin, popProbeLenSum = 0, popFutureEventSum = 0, popCounter = 0\<rparr>"
  have r: "MyCalQueue_remove ?mq \<lparr>eid = 2, time = 4\<rparr> =
      Some (Inr (True, ?mq\<lparr>queue := three_in_a_bin\<lparr>bins :=
         [[\<lparr>eid = 1, time = 0\<rparr>, \<lparr>eid = 3, time = 8\<rparr>], [], [], []]\<rparr>\<rparr>))"
    by (simp add: MyCalQueue_remove_def CalQCore_remove_def EventList_remove_def getSlot_def
          three_in_a_bin_def remove_scan.simps)
  from remove_leaves_numEvents[OF r] show ?thesis
    unfolding r by (simp add: three_in_a_bin_def MyCalQueue_getNumEvents_def)
qed

section \<open>The retuning check\<close>

lemma unat_of_nat_count: "k < 32 \<Longrightarrow> unat (of_nat k :: uint) = k"
  by (simp add: unat_of_nat)

lemma shr_count: "k < 32 \<Longrightarrow> shr acc (of_nat k) = Inr (drop_bit k acc)"
  by (simp add: shr_def unat_of_nat_count)

lemma shift_down_returns:
  assumes "acc \<noteq> 0" and "k < 32" and "base + word_of_int change = (of_nat k :: uint)"
  shows "\<exists>d\<le>k. shift_down acc base change = Inr (change - int d) \<and> drop_bit (k - d) acc \<noteq> 0"
  using assms(2,3)
proof (induction k arbitrary: change)
  case 0
  then have "shift_down acc base change = Inr change"
    using assms(1) by (subst shift_down.simps) (simp add: shr_def)
  with assms(1) show ?case by simp
next
  case (Suc k)
  show ?case
  proof (cases "drop_bit (Suc k) acc = 0")
    case False
    with Suc.prems have "shift_down acc base change = Inr change"
      by (subst shift_down.simps) (simp only: shr_count sum.case if_False simp_thms)
    with False show ?thesis
      by (intro exI[of _ 0]) simp
  next
    case True
    from Suc.prems have step: "base + word_of_int (change - 1) = (of_nat k :: uint)"
      by (simp add: add_diff_eq)
    from Suc.prems have k: "k < 32" by simp
    from Suc.IH[OF k step] obtain d where
      d: "d \<le> k" "shift_down acc base (change - 1) = Inr (change - 1 - int d)"
         "drop_bit (k - d) acc \<noteq> 0"
      by blast
    from True Suc.prems have "shift_down acc base change = shift_down acc base (change - 1)"
      by (subst shift_down.simps) (simp only: shr_count sum.case if_True simp_thms)
    with d show ?thesis
      by (intro exI[of _ "Suc d"]) simp
  qed
qed

lemma drop_bit_gt_3:
  fixes acc :: uint
  assumes "3 < drop_bit k acc"
  shows "k < 30" and "drop_bit (Suc k) acc \<noteq> 0"
proof -
  from assms have "3 < unat (drop_bit k acc)"
    by (simp add: word_less_nat_alt)
  then have v: "3 < unat acc div 2 ^ k"
    by (simp only: unat_drop_bit_eq drop_bit_nat_def)
  have lt: "unat acc < 2 ^ 32"
    using unsigned_less[of acc] by simp
  show "k < 30"
  proof (rule ccontr)
    assume "\<not> k < 30"
    then have "(2::nat) ^ 30 \<le> 2 ^ k"
      by (intro power_increasing) simp_all
    then have "unat acc div 2 ^ k \<le> unat acc div 2 ^ 30"
      by (intro div_le_mono2) simp_all
    also from lt have "\<dots> < 4" by simp
    finally show False using v by simp
  qed
  have "unat (drop_bit (Suc k) acc) = unat acc div 2 ^ Suc k"
    by (simp only: unat_drop_bit_eq drop_bit_nat_def)
  also have "\<dots> = (unat acc div 2 ^ k) div 2"
    by (simp only: power_Suc2 div_mult2_eq)
  finally have "unat (drop_bit (Suc k) acc) = (unat acc div 2 ^ k) div 2" .
  with v have "unat (drop_bit (Suc k) acc) \<noteq> 0"
    by simp
  then show "drop_bit (Suc k) acc \<noteq> 0"
    by (simp add: unat_eq_zero)
qed

lemma shift_up_returns:
  assumes "k < 32" and "base + word_of_int change = (of_nat k :: uint)" and "drop_bit k acc \<noteq> 0"
  shows "\<exists>u. k + u < 32 \<and> shift_up acc base change = Inr (change + int u) \<and>
             drop_bit (k + u) acc \<noteq> 0 \<and> drop_bit (k + u) acc \<le> 3"
  using assms
proof (induction "32 - k" arbitrary: k change)
  case 0
  then show ?case by simp
next
  case (Suc n)
  show ?case
  proof (cases "3 < drop_bit k acc")
    case False
    with Suc.prems have "shift_up acc base change = Inr change"
      by (subst shift_up.simps) (simp only: shr_count sum.case if_False simp_thms)
    with False Suc.prems show ?thesis
      by (intro exI[of _ 0]) (simp add: not_less)
  next
    case True
    note gt = drop_bit_gt_3[OF True]
    from Suc.prems have step: "base + word_of_int (change + 1) = (of_nat (Suc k) :: uint)"
      by (simp add: add.assoc[symmetric])
    from gt have k: "Suc k < 32" by simp
    from Suc.hyps(2) have n: "n = 32 - Suc k" by simp
    from Suc.hyps(1)[OF n k step gt(2)] obtain u where
      u: "Suc k + u < 32" "shift_up acc base (change + 1) = Inr (change + 1 + int u)"
         "drop_bit (Suc k + u) acc \<noteq> 0" "drop_bit (Suc k + u) acc \<le> 3"
      by blast
    from True Suc.prems have "shift_up acc base change = shift_up acc base (change + 1)"
      by (subst shift_up.simps) (simp only: shr_count sum.case if_True simp_thms)
    with u show ?thesis
      by (intro exI[of _ "Suc u"]) simp
  qed
qed

lemma tune_in_band:
  assumes "acc \<noteq> 0" and "unat base < 32"
  shows "\<exists>change v. tune acc base = Inr change \<and> shr acc (base + word_of_int change) = Inr v \<and>
           0 < v \<and> v \<le> 3"
proof -
  define k where "k = unat base"
  have base: "base + word_of_int 0 = (of_nat k :: uint)"
    by (simp add: k_def)
  from assms(2) have k: "k < 32" by (simp add: k_def)
  from shift_down_returns[OF assms(1) k base] obtain d where
    d: "d \<le> k" "shift_down acc base 0 = Inr (0 - int d)" "drop_bit (k - d) acc \<noteq> 0"
    by blast
  from d(1) have base': "base + word_of_int (0 - int d) = (of_nat (k - d) :: uint)"
    by (simp add: k_def of_nat_diff)
  from k have k': "k - d < 32" by simp
  from shift_up_returns[OF k' base' d(3)] obtain u where
    u: "k - d + u < 32" "shift_up acc base (0 - int d) = Inr (0 - int d + int u)"
       "drop_bit (k - d + u) acc \<noteq> 0" "drop_bit (k - d + u) acc \<le> 3"
    by blast
  from d(1) have "base + word_of_int (0 - int d + int u) = (of_nat (k - d + u) :: uint)"
    by (simp add: k_def of_nat_diff)
  then have "shr acc (base + word_of_int (0 - int d + int u)) = Inr (drop_bit (k - d + u) acc)"
    using u(1) by (simp only: shr_count)
  moreover have "tune acc base = Inr (0 - int d + int u)"
    by (simp only: tune_def d(2) u(2) sum.case)
  moreover from u(3) have "0 < drop_bit (k - d + u) acc"
    by (simp add: word_greater_zero_iff)
  ultimately show ?thesis
    using u(4) by blast
qed


text \<open>
  Where the loops do return: with both counters nonzero and the logarithm of the number of
  bins at least 2 and below 32, each pair of loops returns a shift that puts its counter in
  the band from 1 to 3.  Whether the geometry that these shifts ask for can be constructed
  is another matter.
\<close>

lemma tune_both_in_band:
  assumes "popProbeLenSum mq \<noteq> 0" and "popFutureEventSum mq \<noteq> 0"
    and "2 \<le> unat (logTableSize (queue mq))" and "unat (logTableSize (queue mq)) < 32"
  shows "\<exists>binSizeLogChange yearLenLogChange v w.
           tune (popProbeLenSum mq) (logTableSize (queue mq)) = Inr binSizeLogChange \<and>
           tune (popFutureEventSum mq) (logTableSize (queue mq) - 2) = Inr yearLenLogChange \<and>
           shr (popProbeLenSum mq) (logTableSize (queue mq) + word_of_int binSizeLogChange)
             = Inr v \<and> 0 < v \<and> v \<le> 3 \<and>
           shr (popFutureEventSum mq) (logTableSize (queue mq) - 2 + word_of_int yearLenLogChange)
             = Inr w \<and> 0 < w \<and> w \<le> 3"
proof -
  from assms(3) have "2 \<le> logTableSize (queue mq)"
    by (simp add: word_le_nat_alt)
  then have "unat (logTableSize (queue mq) - 2) = unat (logTableSize (queue mq)) - 2"
    by (simp add: unat_sub)
  with assms(4) have "unat (logTableSize (queue mq) - 2) < 32"
    by simp
  from tune_in_band[OF assms(1,4)] tune_in_band[OF assms(2) this] show ?thesis
    by blast
qed

lemma new_my_0_0:
  "MyCalQueue_new 0 0 =
     Inr \<lparr>queue =
            \<lparr>bins = [[], []], binSize = 1, numBins = 2, divideShift = 0, moduloMask = 1,
             logTableSize = 1, currBin = 0, nextYearStart = 2, numEvents = 0, lastPopped = 0\<rparr>,
          popProbeLenSum = 0, popFutureEventSum = 0, popCounter = 0\<rparr>"
  apply (simp add: MyCalQueue_new_def CalQCore_new_def getSlot_def Let_def)
  apply (simp add: numeral_eq_Suc)?
  done

lemma unat_minus_1_uint: "unat (- 1 :: uint) = 4294967295"
  by (simp add: unsigned_minus_1_eq_mask mask_eq_exp_minus_1)

lemma unat_ucast_minus_1: "unat (ucast (- 1 :: uint) :: uchar) = 255"
  by (simp add: unsigned_ucast_eq unat_minus_1_uint take_bit_eq_mod)

lemma time_5_after_1: "\<not> (5::TimeType) \<le> 1"
  by (simp add: word_le_nat_alt)

text \<open>
  C5: the retuning check does not run to completion for every value of the counters.  Each
  run below ends in the check of its last pop, and the check ends in a shift or a
  construction that C++ leaves undefined, so no pair of shifts is produced.

  \<^item> \<open>MyCalQueue(0, 1)\<close> has four bins.  Four events of time 0 are pushed and popped: every
    pop finds its event in the current bin, \<open>popProbeLenSum\<close> is 0 at the check, no shift
    of 0 is nonzero, and the first loop steps \<open>binSizeLogChange\<close> down to -3, where the
    \<open>unsigned\<close> shift count \<open>2 + (-3)\<close> is \<open>2^32 - 1\<close>.
  \<^item> Four pops of the same queue while it is empty: both counters are 0, the same loop.
  \<^item> Events of times 0, 1, 5, 2, 2 and four pops of the same queue: the counters are 2 and 1
    at the check, the loops return -1 and 0, and the replacement table is constructed with
    the \<open>unsigned char\<close> logarithm of the bin size \<open>0 + (-1) = 255\<close>, that is \<open>1 << 255\<close>.
  \<^item> The default \<open>MyCalQueue(0, 0)\<close> has two bins.  Events of times 3 and 1 are pushed and
    popped: the counters are 1 and 1 at the check, and the second pair of loops starts at
    the \<open>unsigned\<close> shift count \<open>1 - 2 = 2^32 - 1\<close>.

  The last four facts are the loops and the construction on their own, at these values.
\<close>

theorem retuning_check_undefined:
  "(\<exists>mq0. MyCalQueue_new 0 1 = Inr mq0 \<and>
      my_run [Push \<lparr>eid = 1, time = 0\<rparr>, Push \<lparr>eid = 2, time = 0\<rparr>, Push \<lparr>eid = 3, time = 0\<rparr>,
              Push \<lparr>eid = 4, time = 0\<rparr>, Pop, Pop, Pop, Pop] mq0
        = Some (Inl UndefinedBehaviour) \<and>
      my_run [Pop, Pop, Pop, Pop] mq0 = Some (Inl UndefinedBehaviour) \<and>
      my_run [Push \<lparr>eid = 1, time = 0\<rparr>, Push \<lparr>eid = 2, time = 1\<rparr>, Push \<lparr>eid = 3, time = 5\<rparr>,
              Push \<lparr>eid = 4, time = 2\<rparr>, Push \<lparr>eid = 5, time = 2\<rparr>, Pop, Pop, Pop, Pop] mq0
        = Some (Inl UndefinedBehaviour)) \<and>
   (\<exists>mq0. MyCalQueue_new 0 0 = Inr mq0 \<and>
      my_run [Push \<lparr>eid = 1, time = 3\<rparr>, Push \<lparr>eid = 2, time = 1\<rparr>, Pop, Pop] mq0
        = Some (Inl UndefinedBehaviour)) \<and>
   tune 0 2 = Inl UndefinedBehaviour \<and> tune 1 (1 - 2) = Inl UndefinedBehaviour \<and>
   tune 2 2 = Inr (- 1) \<and> rebuild three_in_a_bin (- 1) 1 = Inl UndefinedBehaviour"
  unfolding new_my_0_1 new_my_0_0
  by (simp add: eval_defs pop_loop.simps rebuild_def three_in_a_bin_def unat_minus_1_uint
        unat_ucast_minus_1 time_5_after_1)

section \<open>Buckets\<close>

subsection \<open>The ordered insert\<close>

lemma push_scan_result:
  "push_scan subject p rest = Inr chain \<Longrightarrow> chain = p # insort_key time subject rest"
  by (induction rest arbitrary: p chain)
     (auto split: if_splits sum.splits simp: not_less)

lemma EventList_push_result:
  "EventList_push root subject = Inr b \<Longrightarrow> b = insort_key time subject root"
  by (auto simp: EventList_push_def not_le split: list.splits if_splits dest: push_scan_result)

lemma push_scan_succeeds:
  "sorted (map time (p # rest)) \<Longrightarrow> eid subject \<notin> eid ` set rest \<Longrightarrow>
   \<exists>chain. push_scan subject p rest = Inr chain"
proof (induction rest arbitrary: p)
  case Nil
  then show ?case by simp
next
  case (Cons n ns)
  from Cons.prems have "sorted (map time (n # ns))" "eid subject \<notin> eid ` set ns"
    by simp_all
  from Cons.IH[OF this] obtain chain where "push_scan subject n ns = Inr chain" ..
  with Cons.prems show ?case by simp
qed

lemma EventList_push_succeeds:
  "sorted (map time root) \<Longrightarrow> eid subject \<notin> eid ` set root \<Longrightarrow>
   \<exists>b. EventList_push root subject = Inr b"
  using push_scan_succeeds[of _ _ subject]
  by (cases root) (auto simp: EventList_push_def)

lemma remove_scan_closed:
  "remove_scan subject p rest =
     (case rest of
        [] \<Rightarrow> Some (Inr (False, [p]))
      | n # ns \<Rightarrow>
          if \<not> time p \<le> time n then Some (Inl AssertionFailed)
          else if eid n = eid subject then Some (Inr (True, p # ns))
          else None)"
proof (cases rest)
  case Nil
  then show ?thesis by (subst remove_scan.simps) simp
next
  case (Cons n ns)
  show ?thesis
  proof (cases "time p \<le> time n \<and> eid n \<noteq> eid subject")
    case True
    then show ?thesis
      unfolding Cons by (simp add: remove_scan_never_returns)
  next
    case False
    then show ?thesis
      unfolding Cons by (subst remove_scan.simps) auto
  qed
qed

lemma EventList_remove_closed:
  "EventList_remove root subject = Some (Inr (found, b)) \<Longrightarrow>
   \<not> found \<and> b = root \<or> found \<and> ((\<exists>r. root = r # b) \<or> (\<exists>p n ns. root = p # n # ns \<and> b = p # ns))"
  by (cases root) (auto simp: EventList_remove_def remove_scan_closed split: list.splits if_splits)

lemma EventList_remove_sublist:
  assumes "EventList_remove root subject = Some (Inr (found, b))"
  shows "set b \<subseteq> set root" and "sorted (map time root) \<Longrightarrow> sorted (map time b)"
proof -
  from EventList_remove_closed[OF assms]
  have "b = root \<or> (\<exists>r. root = r # b) \<or> (\<exists>p n ns. root = p # n # ns \<and> b = p # ns)"
    by blast
  then show "set b \<subseteq> set root" and "sorted (map time root) \<Longrightarrow> sorted (map time b)"
    by auto
qed


subsection \<open>The table\<close>

definition table_ok :: "CalQCore \<Rightarrow> bool" where
  "table_ok q \<longleftrightarrow>
     length (bins q) = unat (numBins q) \<and> (\<forall>t. unat (getSlot q t) < unat (numBins q))"

definition slots_ok :: "CalQCore \<Rightarrow> bool" where
  "slots_ok q \<longleftrightarrow>
     (\<forall>i < length (bins q). \<forall>e \<in> set (bins q ! i). unat (getSlot q (time e)) = i)"

definition bins_sorted :: "CalQCore \<Rightarrow> bool" where
  "bins_sorted q \<longleftrightarrow> (\<forall>b \<in> set (bins q). sorted (map time b))"

definition bucket_inv :: "CalQCore \<Rightarrow> bool" where
  "bucket_inv q \<longleftrightarrow> table_ok q \<and> slots_ok q \<and> bins_sorted q"

lemma getSlot_cong:
  assumes "divideShift q' = divideShift q" and "moduloMask q' = moduloMask q"
  shows "getSlot q' = getSlot q"
proof
  fix t
  show "getSlot q' t = getSlot q t"
    unfolding getSlot_def by (simp only: assms)
qed

lemma bucket_inv_update:
  assumes inv: "bucket_inv q" and i: "i < length (bins q)"
    and geo: "divideShift q' = divideShift q" "moduloMask q' = moduloMask q" "numBins q' = numBins q"
    and bins: "bins q' = (bins q)[i := b]"
    and st: "sorted (map time b)" and sl: "\<forall>e \<in> set b. unat (getSlot q (time e)) = i"
  shows "bucket_inv q'"
proof -
  have g: "getSlot q' = getSlot q"
    using geo(1,2) by (rule getSlot_cong)
  from inv geo bins have "table_ok q'"
    by (simp add: bucket_inv_def table_ok_def g)
  moreover from inv bins sl i have "slots_ok q'"
    by (auto simp: bucket_inv_def slots_ok_def g nth_list_update split: if_splits)
  moreover from inv bins st have "bins_sorted q'"
    by (auto simp: bucket_inv_def bins_sorted_def dest!: set_update_subset_insert[THEN subsetD])
  ultimately show ?thesis
    by (simp add: bucket_inv_def)
qed

lemma bucket_inv_same_bins:
  assumes "bucket_inv q" and "divideShift q' = divideShift q" "moduloMask q' = moduloMask q"
    "numBins q' = numBins q" "bins q' = bins q"
  shows "bucket_inv q'"
proof -
  have "getSlot q' = getSlot q"
    using assms(2,3) by (rule getSlot_cong)
  with assms(1,4,5) show ?thesis
    by (simp add: bucket_inv_def table_ok_def slots_ok_def bins_sorted_def)
qed

lemma slot_nat_bound:
  fixes x :: nat
  assumes "k \<le> a + b"
  shows "x mod 2 ^ k div 2 ^ a < 2 ^ b"
proof -
  have "x mod 2 ^ k < 2 ^ k" by simp
  also from assms have "(2::nat) ^ k \<le> 2 ^ (a + b)"
    by (intro power_increasing) simp_all
  finally have "x mod 2 ^ k < 2 ^ b * 2 ^ a"
    by (simp add: power_add mult.commute)
  then show ?thesis
    by (simp add: less_mult_imp_div_less)
qed

lemma ucast_modulo_mask:
  "(ucast (push_bit a 1 * push_bit b 1 - 1 :: uint) :: TimeType) = mask (min 32 (a + b))"
proof -
  have "(push_bit a 1 * push_bit b 1 - 1 :: uint) = mask (a + b)"
    by (simp add: mask_eq_exp_minus_1 power_add)
  then show ?thesis
    by (simp add: ucast_mask_eq)
qed

lemma unat_slot:
  "unat (ucast (drop_bit a (t AND mask k :: TimeType)) :: uint) = unat t mod 2 ^ k div 2 ^ a"
  if "k \<le> 32"
proof -
  have "unat (drop_bit a (t AND mask k)) = unat t mod 2 ^ k div 2 ^ a"
    by (simp only: unat_drop_bit_eq drop_bit_nat_def flip: take_bit_eq_mask)
       (simp add: unsigned_take_bit_eq take_bit_nat_def)
  moreover have "unat t mod 2 ^ k div 2 ^ a < 2 ^ 32"
  proof -
    have "unat t mod 2 ^ k div 2 ^ a \<le> unat t mod 2 ^ k" by simp
    also have "\<dots> < 2 ^ k" by simp
    also from that have "(2::nat) ^ k \<le> 2 ^ 32"
      by (intro power_increasing) simp_all
    finally show ?thesis .
  qed
  ultimately show ?thesis
    by (simp add: unsigned_ucast_eq take_bit_nat_def)
qed


subsection \<open>What the operations return\<close>

lemma unat_ucast_uchar: "unat (ucast (n :: uchar) :: uint) = unat n"
proof -
  have "unat n < 2 ^ 8"
    using unsigned_less[of n] by simp
  then have "unat n < 2 ^ 32"
    by simp
  then show ?thesis
    by (simp add: unsigned_ucast_eq take_bit_nat_eq_self)
qed

lemma unat_numBins_new: "b < 32 \<Longrightarrow> unat (push_bit b 1 :: uint) = 2 ^ b"
proof -
  assume "b < 32"
  then have lt: "(2::nat) ^ b < 2 ^ 32"
    by (intro power_strict_increasing) simp_all
  have eq: "(of_nat (2 ^ b) :: uint) = push_bit b 1"
    by simp
  have "unat (of_nat (2 ^ b) :: uint) = 2 ^ b mod 2 ^ 32"
    using unat_of_nat[of "2 ^ b", where 'a = 32] by simp
  with lt show ?thesis
    unfolding eq by simp
qed

lemma CalQCore_new_fields:
  assumes "CalQCore_new logBinSize logNumBins startTime = Inr q"
  shows "unat logBinSize < 32" "unat logNumBins < 32"
    "bins q = replicate (2 ^ unat logNumBins) []"
    "binSize q = push_bit (unat logBinSize) 1"
    "numBins q = push_bit (unat logNumBins) 1"
    "divideShift q = ucast logBinSize"
    "moduloMask q = push_bit (unat logBinSize) 1 * push_bit (unat logNumBins) 1 - 1"
    "logTableSize q = ucast logNumBins"
    "numEvents q = 0"
    "lastPopped q = startTime"
    "currBin q = getSlot q startTime"
    "nextYearStart q =
       (drop_bit (unat logBinSize + unat logNumBins) startTime + 1)
         * ucast (push_bit (unat logBinSize) 1 :: uint) * ucast (push_bit (unat logNumBins) 1 :: uint)"
proof -
  from assms show a: "unat logBinSize < 32" and b: "unat logNumBins < 32"
    by (auto simp: CalQCore_new_def split: if_splits)
  from assms a b show "bins q = replicate (2 ^ unat logNumBins) []"
    using unat_numBins_new[OF b]
    by (auto simp: CalQCore_new_def Let_def simp del: push_bit_of_1)
  from assms a b show
    "binSize q = push_bit (unat logBinSize) 1"
    "numBins q = push_bit (unat logNumBins) 1"
    "divideShift q = ucast logBinSize"
    "moduloMask q = push_bit (unat logBinSize) 1 * push_bit (unat logNumBins) 1 - 1"
    "logTableSize q = ucast logNumBins"
    "numEvents q = 0"
    "lastPopped q = startTime"
    "nextYearStart q =
       (drop_bit (unat logBinSize + unat logNumBins) startTime + 1)
         * ucast (push_bit (unat logBinSize) 1 :: uint) * ucast (push_bit (unat logNumBins) 1 :: uint)"
    by (auto simp: CalQCore_new_def Let_def simp del: push_bit_of_1)
  from assms a b show "currBin q = getSlot q startTime"
    by (auto simp: CalQCore_new_def Let_def getSlot_def simp del: push_bit_of_1)
qed

lemma CalQCore_new_bucket_inv:
  assumes "CalQCore_new logBinSize logNumBins startTime = Inr q"
  shows "bucket_inv q"
proof -
  note f = CalQCore_new_fields[OF assms]
  have nb: "unat (numBins q) = 2 ^ unat logNumBins"
    by (simp only: f(5) unat_numBins_new[OF f(2)])
  have "unat (getSlot q t) < unat (numBins q)" for t
  proof -
    have "unat (getSlot q t) =
        unat t mod 2 ^ min 32 (unat logBinSize + unat logNumBins) div 2 ^ unat logBinSize"
      unfolding getSlot_def f(6,7) ucast_modulo_mask unat_ucast_uchar
      by (rule unat_slot) simp
    also have "\<dots> < 2 ^ unat logNumBins"
      by (rule slot_nat_bound) simp
    finally show ?thesis
      by (simp only: nb)
  qed
  then have "table_ok q"
    by (simp add: table_ok_def nb f(3))
  moreover have "slots_ok q"
    by (simp add: slots_ok_def f(3))
  moreover have "bins_sorted q"
    by (simp add: bins_sorted_def f(3))
  ultimately show ?thesis
    by (simp add: bucket_inv_def)
qed

lemma CalQCore_push_result:
  assumes "CalQCore_push q e = Inr q'"
  shows "lastPopped q \<le> time e"
    and "unat (getSlot q (time e)) < length (bins q)"
    and "q' = q\<lparr>numEvents := numEvents q + 1,
              bins := (bins q)[unat (getSlot q (time e)) :=
                         insort_key time e (bins q ! unat (getSlot q (time e)))]\<rparr>"
  using assms
  by (auto simp: CalQCore_push_def Let_def split: if_splits sum.splits
           dest: EventList_push_result)

lemma CalQCore_push_bucket_inv:
  assumes "bucket_inv q" and "CalQCore_push q e = Inr q'"
  shows "bucket_inv q'" and "e \<in> set (bins q' ! unat (getSlot q' (time e)))"
proof -
  let ?i = "unat (getSlot q (time e))"
  note r = CalQCore_push_result[OF assms(2)]
  have st: "sorted (map time (insort_key time e (bins q ! ?i)))"
    using assms(1) r(2) by (simp add: bucket_inv_def bins_sorted_def sorted_insort_key)
  have sl: "\<forall>x \<in> set (insort_key time e (bins q ! ?i)). unat (getSlot q (time x)) = ?i"
    using assms(1) r(2) by (auto simp: bucket_inv_def slots_ok_def set_insort_key)
  show "bucket_inv q'"
    by (rule bucket_inv_update[OF assms(1) r(2) _ _ _ _ st sl]) (simp_all add: r(3))
  have "getSlot q' = getSlot q"
    by (rule getSlot_cong) (simp_all add: r(3))
  then show "e \<in> set (bins q' ! unat (getSlot q' (time e)))"
    using r(2) by (simp add: r(3) set_insort_key)
qed

lemma advance_fields:
  "bins (advance q) = bins q" "binSize (advance q) = binSize q" "numBins (advance q) = numBins q"
  "divideShift (advance q) = divideShift q" "moduloMask (advance q) = moduloMask q"
  "logTableSize (advance q) = logTableSize q" "numEvents (advance q) = numEvents q"
  "lastPopped (advance q) = lastPopped q"
  by (simp_all add: advance_def)

lemma advances_fields:
  "bins ((advance ^^ n) q) = bins q" "binSize ((advance ^^ n) q) = binSize q"
  "numBins ((advance ^^ n) q) = numBins q" "divideShift ((advance ^^ n) q) = divideShift q"
  "moduloMask ((advance ^^ n) q) = moduloMask q" "logTableSize ((advance ^^ n) q) = logTableSize q"
  "numEvents ((advance ^^ n) q) = numEvents q" "lastPopped ((advance ^^ n) q) = lastPopped q"
  by (induction n) (simp_all add: advance_fields)

text \<open>
  A call of the loop of \<open>pop\<close> that returns normally has advanced the cursor some number
  of times and then taken the head of the bucket under the cursor.
\<close>

definition taken :: "CalQCore \<Rightarrow> event \<Rightarrow> event list \<Rightarrow> CalQCore \<Rightarrow> bool" where
  "taken q e rest q' \<longleftrightarrow>
     unat (currBin q) < length (bins q) \<and> bins q ! unat (currBin q) = e # rest \<and>
     time e < nextYearStart q \<and> lastPopped q \<le> time e \<and>
     q' = q\<lparr>lastPopped := time e, bins := (bins q)[unat (currBin q) := rest]\<rparr>"

lemma pop_loop_result:
  assumes "pop_loop q p f = Some (Inr (r, q', p', f'))"
  shows "\<exists>n e rest. r = Some e \<and> taken ((advance ^^ n) q) e rest q'"
proof -
  have "\<forall>r q' p' f'. y = Inr (r, q', p', f') \<longrightarrow>
          (\<exists>n e rest. r = Some e \<and> taken ((advance ^^ n) q) e rest q')"
    if "pop_loop q p f = Some y" for y
  proof (rule pop_loop.raw_induct[where P = "\<lambda>q p f y. \<forall>r q' p' f'. y = Inr (r, q', p', f') \<longrightarrow>
          (\<exists>n e rest. r = Some e \<and> taken ((advance ^^ n) q) e rest q')", OF _ that])
    fix loop :: "CalQCore \<Rightarrow> uint \<Rightarrow> uint \<Rightarrow> (error + event option \<times> CalQCore \<times> uint \<times> uint) option"
      and q p f y
    assume IH: "\<And>q p f y. loop q p f = Some y \<Longrightarrow>
        \<forall>r q' p' f'. y = Inr (r, q', p', f') \<longrightarrow>
          (\<exists>n e rest. r = Some e \<and> taken ((advance ^^ n) q) e rest q')"
    assume body: "(if length (bins q) \<le> unat (currBin q) then Some (Inl UndefinedBehaviour)
      else
        (case bins q ! unat (currBin q) of
           [] \<Rightarrow> loop (advance q) (p + 1) f
         | r # rest \<Rightarrow>
             if time r < nextYearStart q then
               (if lastPopped q \<le> time r
                then Some (Inr (Some r,
                       q\<lparr>lastPopped := time r, bins := (bins q)[unat (currBin q) := rest]\<rparr>,
                       p, f))
                else Some (Inl AssertionFailed))
             else loop (advance q) (p + 1) (f + 1))) = Some y"
    show "\<forall>r q' p' f'. y = Inr (r, q', p', f') \<longrightarrow>
          (\<exists>n e rest. r = Some e \<and> taken ((advance ^^ n) q) e rest q')"
    proof (intro allI impI)
      fix r q' p' f'
      assume y: "y = Inr (r, q', p', f')"
      from body y have k: "unat (currBin q) < length (bins q)"
        by (auto split: if_splits)
      show "\<exists>n e rest. r = Some e \<and> taken ((advance ^^ n) q) e rest q'"
      proof (cases "\<exists>e rest. bins q ! unat (currBin q) = e # rest \<and> time e < nextYearStart q")
        case True
        then obtain e rest where b: "bins q ! unat (currBin q) = e # rest" "time e < nextYearStart q"
          by blast
        with body y k have "r = Some e \<and> taken q e rest q'"
          by (auto simp: taken_def split: if_splits)
        then have "r = Some e \<and> taken ((advance ^^ 0) q) e rest q'"
          by simp
        then show ?thesis by blast
      next
        case False
        with body k obtain p1 f1 where "loop (advance q) p1 f1 = Some y"
          by (auto split: if_splits list.splits)
        from IH[OF this] y obtain n e rest where
          "r = Some e" "taken ((advance ^^ n) (advance q)) e rest q'"
          by blast
        then have "r = Some e \<and> taken ((advance ^^ Suc n) q) e rest q'"
          by (simp add: funpow_swap1)
        then show ?thesis by blast
      qed
    qed
  qed
  with assms show ?thesis by blast
qed

lemma taken_bucket_inv:
  assumes "bucket_inv q" and "taken ((advance ^^ n) q) e rest q'"
  shows "bucket_inv q'"
proof -
  let ?qn = "(advance ^^ n) q"
  note t = assms(2)[unfolded taken_def advances_fields]
  from t have k: "unat (currBin ?qn) < length (bins q)" and b: "bins q ! unat (currBin ?qn) = e # rest"
    and q': "q' = ?qn\<lparr>lastPopped := time e, bins := (bins q)[unat (currBin ?qn) := rest]\<rparr>"
    by simp_all
  from assms(1) k b have st: "sorted (map time rest)"
    by (auto simp: bucket_inv_def bins_sorted_def dest!: nth_mem)
  from assms(1) k b have sl: "\<forall>x \<in> set rest. unat (getSlot q (time x)) = unat (currBin ?qn)"
    by (auto simp: bucket_inv_def slots_ok_def)
  show ?thesis
    by (rule bucket_inv_update[OF assms(1) k _ _ _ _ st sl]) (simp_all add: q' advances_fields)
qed

lemma CalQCore_pop_bucket_inv:
  assumes "bucket_inv q" and "CalQCore_pop q p f = Some (Inr (r, q', p', f'))"
  shows "bucket_inv q'"
proof (cases "numEvents q = 0")
  case True
  with assms show ?thesis by (simp add: CalQCore_pop_def)
next
  case False
  let ?q1 = "q\<lparr>numEvents := numEvents q - 1\<rparr>"
  from False assms(2) have "pop_loop ?q1 p f = Some (Inr (r, q', p', f'))"
    by (simp add: CalQCore_pop_def)
  from pop_loop_result[OF this] obtain n e rest where t: "taken ((advance ^^ n) ?q1) e rest q'"
    by blast
  have "bucket_inv ?q1"
    by (rule bucket_inv_same_bins[OF assms(1)]) simp_all
  then show ?thesis using t by (rule taken_bucket_inv)
qed

lemma CalQCore_remove_bucket_inv:
  assumes "bucket_inv q" and "CalQCore_remove q e = Some (Inr (found, q'))"
  shows "bucket_inv q'"
proof -
  let ?i = "unat (getSlot q (time e))"
  from assms(2) obtain b where
    i: "?i < length (bins q)" and
    r: "EventList_remove (bins q ! ?i) e = Some (Inr (found, b))" and
    q': "q' = q\<lparr>bins := (bins q)[?i := b]\<rparr>"
    by (auto simp: CalQCore_remove_def Let_def split: if_splits option.splits sum.splits)
  note s = EventList_remove_sublist[OF r]
  from assms(1) i s(2) have st: "sorted (map time b)"
    by (simp add: bucket_inv_def bins_sorted_def)
  from assms(1) i s(1) have sl: "\<forall>x \<in> set b. unat (getSlot q (time x)) = ?i"
    by (auto simp: bucket_inv_def slots_ok_def)
  show ?thesis
    by (rule bucket_inv_update[OF assms(1) i _ _ _ _ st sl]) (simp_all add: q')
qed

lemma drain_bin_bucket_inv:
  "bucket_inv dst \<Longrightarrow> drain_bin es dst = Inr dst' \<Longrightarrow> bucket_inv dst'"
  by (induction es arbitrary: dst)
     (auto split: sum.splits dest: CalQCore_push_bucket_inv(1))

lemma drain_bins_bucket_inv:
  "bucket_inv dst \<Longrightarrow> drain_bins bs dst = Inr dst' \<Longrightarrow> bucket_inv dst'"
  by (induction bs arbitrary: dst)
     (auto split: sum.splits dest: drain_bin_bucket_inv)

lemma rebuild_bucket_inv:
  assumes "rebuild q c n = Inr q'"
  shows "bucket_inv q'"
proof -
  from assms obtain q0 where
    new: "CalQCore_new (ucast (divideShift q + word_of_int c))
            (ucast (logTableSize q + word_of_int n)) (lastPopped q) = Inr q0"
    and "consume q0 q = Inr q'"
    by (auto simp: rebuild_def split: sum.splits)
  then have "drain_bins (take (unat (numBins q)) (bins q)) q0 = Inr q'"
    by (simp add: consume_def)
  with CalQCore_new_bucket_inv[OF new] show ?thesis
    by (rule drain_bins_bucket_inv)
qed

lemma retune_bucket_inv:
  assumes "bucket_inv (queue mq)" and "retune mq = Inr mq'"
  shows "bucket_inv (queue mq')"
  using assms
  by (auto simp: retune_def Let_def split: sum.splits if_splits dest: rebuild_bucket_inv)

lemma MyCalQueue_pop_bucket_inv:
  assumes "bucket_inv (queue mq)" and "MyCalQueue_pop mq = Some (Inr (r, mq'))"
  shows "bucket_inv (queue mq')"
proof -
  from assms(2) obtain r0 q p f where
    c: "CalQCore_pop (queue mq) (popProbeLenSum mq) (popFutureEventSum mq) = Some (Inr (r0, q, p, f))"
    by (auto simp: MyCalQueue_pop_def split: option.splits sum.splits)
  let ?mq1 = "mq\<lparr>queue := q, popProbeLenSum := p, popFutureEventSum := f,
                  popCounter := popCounter mq + 1\<rparr>"
  have q: "bucket_inv (queue ?mq1)"
    using CalQCore_pop_bucket_inv[OF assms(1) c] by simp
  from assms(2) c have "mq' = ?mq1 \<or> retune ?mq1 = Inr mq'"
    by (auto simp: MyCalQueue_pop_def Let_def split: if_splits sum.splits)
  then show ?thesis
  proof
    assume "mq' = ?mq1"
    with q show ?thesis by simp
  next
    assume "retune ?mq1 = Inr mq'"
    with q show ?thesis by (rule retune_bucket_inv)
  qed
qed


subsection \<open>The bucket invariant along a run\<close>

definition in_its_bucket :: "op \<Rightarrow> CalQCore \<Rightarrow> bool" where
  "in_its_bucket x q \<longleftrightarrow>
     bucket_inv q \<and>
     (case x of
        Push e \<Rightarrow> e \<in> set (bins q ! unat (getSlot q (time e)))
      | _ \<Rightarrow> True)"

lemma core_step_bucket_inv:
  assumes "bucket_inv q" and "core_step x (q, p, f) = Some (Inr (r, q', p', f'))"
  shows "in_its_bucket x q'"
proof (cases x)
  case (Push e)
  with assms(2) have "CalQCore_push q e = Inr q'"
    by (auto split: sum.splits)
  from CalQCore_push_bucket_inv[OF assms(1) this] Push show ?thesis
    by (simp add: in_its_bucket_def)
next
  case Pop
  with assms(2) obtain r0 where "CalQCore_pop q p f = Some (Inr (r0, q', p', f'))"
    by (auto split: option.splits sum.splits)
  from CalQCore_pop_bucket_inv[OF assms(1) this] Pop show ?thesis
    by (simp add: in_its_bucket_def)
next
  case (Remove e)
  with assms(2) obtain found where "CalQCore_remove q e = Some (Inr (found, q'))"
    by (auto split: option.splits sum.splits)
  from CalQCore_remove_bucket_inv[OF assms(1) this] Remove show ?thesis
    by (simp add: in_its_bucket_def)
qed

lemma core_run_bucket_inv:
  "bucket_inv q \<Longrightarrow> core_run ops (q, p, f) = Some (Inr (tr, (q', p', f'))) \<Longrightarrow>
   list_all2 (\<lambda>x (before, r, after). in_its_bucket x after) ops tr \<and> bucket_inv q'"
proof (induction ops arbitrary: q p f tr)
  case Nil
  then show ?case by simp
next
  case (Cons x xs)
  from Cons.prems(2) obtain r q1 p1 f1 tr1 where
    st: "core_step x (q, p, f) = Some (Inr (r, q1, p1, f1))" and
    run: "core_run xs (q1, p1, f1) = Some (Inr (tr1, (q', p', f')))" and
    tr: "tr = (q, r, q1) # tr1"
    by (auto split: option.splits sum.splits)
  note b = core_step_bucket_inv[OF Cons.prems(1) st]
  then have "bucket_inv q1"
    by (simp add: in_its_bucket_def)
  from Cons.IH[OF this run] b show ?case
    by (simp add: tr)
qed

lemma my_step_bucket_inv:
  assumes "bucket_inv (queue mq)" and "my_step x mq = Some (Inr (r, mq'))"
  shows "in_its_bucket x (queue mq')"
proof (cases x)
  case (Push e)
  with assms(2) obtain q' where "CalQCore_push (queue mq) e = Inr q'" and "mq' = mq\<lparr>queue := q'\<rparr>"
    by (auto simp: MyCalQueue_push_def split: sum.splits)
  with CalQCore_push_bucket_inv[OF assms(1) this(1)] Push show ?thesis
    by (simp add: in_its_bucket_def)
next
  case Pop
  with assms(2) obtain r0 where "MyCalQueue_pop mq = Some (Inr (r0, mq'))"
    by (auto split: option.splits sum.splits)
  from MyCalQueue_pop_bucket_inv[OF assms(1) this] Pop show ?thesis
    by (simp add: in_its_bucket_def)
next
  case (Remove e)
  with assms(2) obtain found q' where
    "CalQCore_remove (queue mq) e = Some (Inr (found, q'))" and "mq' = mq\<lparr>queue := q'\<rparr>"
    by (auto simp: MyCalQueue_remove_def split: option.splits sum.splits)
  with CalQCore_remove_bucket_inv[OF assms(1) this(1)] Remove show ?thesis
    by (simp add: in_its_bucket_def)
qed

lemma my_run_bucket_inv:
  "bucket_inv (queue mq) \<Longrightarrow> my_run ops mq = Some (Inr (tr, mq')) \<Longrightarrow>
   list_all2 (\<lambda>x (before, r, after). in_its_bucket x (queue after)) ops tr \<and>
   bucket_inv (queue mq')"
proof (induction ops arbitrary: mq tr)
  case Nil
  then show ?case by simp
next
  case (Cons x xs)
  from Cons.prems(2) obtain r mq1 tr1 where
    st: "my_step x mq = Some (Inr (r, mq1))" and
    run: "my_run xs mq1 = Some (Inr (tr1, mq'))" and
    tr: "tr = (mq, r, mq1) # tr1"
    by (auto split: option.splits sum.splits)
  note b = my_step_bucket_inv[OF Cons.prems(1) st]
  then have "bucket_inv (queue mq1)"
    by (simp add: in_its_bucket_def)
  from Cons.IH[OF this run] b show ?case
    by (simp add: tr)
qed

text \<open>
  C9: from its construction on and through every run of pushes, pops, removals and
  rebuilds that returns, each bucket of the self-tuning queue holds only events whose slot
  \<open>(time & moduloMask) >> divideShift\<close>, in the geometry of the current table, is the index
  of the bucket; the slot is an index of the table; and the event of a push is in the
  bucket of its slot when the push returns.
\<close>

theorem bucket_invariant:
  assumes "MyCalQueue_new startTime initLogNumEvents = Inr mq0"
    and "my_run ops mq0 = Some (Inr (tr, mq))"
  shows "slots_ok (queue mq0) \<and> table_ok (queue mq0) \<and>
         list_all2 (\<lambda>x (before, r, after). in_its_bucket x (queue after)) ops tr \<and>
         slots_ok (queue mq) \<and> table_ok (queue mq)"
proof -
  from assms(1) obtain q0 where
    "CalQCore_new 0 (ucast (initLogNumEvents + 1)) startTime = Inr q0" and "queue mq0 = q0"
    by (auto simp: MyCalQueue_new_def split: sum.splits)
  with CalQCore_new_bucket_inv[OF this(1)] have b: "bucket_inv (queue mq0)"
    by simp
  from my_run_bucket_inv[OF b assms(2)] b show ?thesis
    by (simp add: bucket_inv_def)
qed

lemmas rebuild_eval_defs = rebuild_def consume_def

theorem bucket_invariant_witness:
  "\<exists>mq0 tr mq.
     MyCalQueue_new 0 1 = Inr mq0 \<and>
     my_run [Push \<lparr>eid = 1, time = 5\<rparr>, Push \<lparr>eid = 2, time = 6\<rparr>, Push \<lparr>eid = 3, time = 9\<rparr>,
             Push \<lparr>eid = 4, time = 10\<rparr>, Push \<lparr>eid = 5, time = 20\<rparr>, Push \<lparr>eid = 6, time = 21\<rparr>,
             Pop, Pop, Pop, Pop, Remove \<lparr>eid = 5, time = 20\<rparr>, Pop] mq0 = Some (Inr (tr, mq)) \<and>
     numBins (queue mq) = 16 \<and>
     list_all2 (\<lambda>x (before, r, after). in_its_bucket x (queue after))
       [Push \<lparr>eid = 1, time = 5\<rparr>, Push \<lparr>eid = 2, time = 6\<rparr>, Push \<lparr>eid = 3, time = 9\<rparr>,
        Push \<lparr>eid = 4, time = 10\<rparr>, Push \<lparr>eid = 5, time = 20\<rparr>, Push \<lparr>eid = 6, time = 21\<rparr>,
        Pop, Pop, Pop, Pop, Remove \<lparr>eid = 5, time = 20\<rparr>, Pop] tr \<and>
     slots_ok (queue mq) \<and> table_ok (queue mq)"
proof -
  let ?ops = "[Push \<lparr>eid = 1, time = 5\<rparr>, Push \<lparr>eid = 2, time = 6\<rparr>, Push \<lparr>eid = 3, time = 9\<rparr>,
             Push \<lparr>eid = 4, time = 10\<rparr>, Push \<lparr>eid = 5, time = 20\<rparr>, Push \<lparr>eid = 6, time = 21\<rparr>,
             Pop, Pop, Pop, Pop, Remove \<lparr>eid = 5, time = 20\<rparr>, Pop]"
  have "\<exists>mq0. MyCalQueue_new 0 1 = Inr mq0 \<and>
     (\<exists>tr mq. my_run ?ops mq0 = Some (Inr (tr, mq)) \<and> numBins (queue mq) = 16)"
    unfolding new_my_0_1
    apply (simp add: eval_defs pop_loop.simps rebuild_def consume_def MyCalQueue_remove_def
        CalQCore_remove_def EventList_remove_def remove_scan_closed)
    apply (simp add: numeral_eq_Suc)?
    apply (simp add: eval_defs)?
    done
  then obtain mq0 tr mq where
    n: "MyCalQueue_new 0 1 = Inr mq0" and r: "my_run ?ops mq0 = Some (Inr (tr, mq))" and
    nb: "numBins (queue mq) = 16"
    by blast
  from bucket_invariant[OF n r] n r nb show ?thesis
    by blast
qed


subsection \<open>The causality check of push\<close>

lemma CalQCore_push_accepts:
  assumes "bucket_inv q" and "eid e \<notin> eid ` set (concat (bins q))" and "lastPopped q \<le> time e"
  shows "\<exists>q'. CalQCore_push q e = Inr q'"
proof -
  let ?i = "unat (getSlot q (time e))"
  from assms(1) have i: "?i < length (bins q)"
    by (simp add: bucket_inv_def table_ok_def)
  then have m: "bins q ! ?i \<in> set (bins q)"
    by simp
  with assms(1) have "sorted (map time (bins q ! ?i))"
    by (simp add: bucket_inv_def bins_sorted_def)
  moreover from assms(2) m have "eid e \<notin> eid ` set (bins q ! ?i)"
    by auto
  ultimately obtain b where "EventList_push (bins q ! ?i) e = Inr b"
    using EventList_push_succeeds by blast
  with i assms(3) show ?thesis
    by (simp add: CalQCore_push_def Let_def)
qed

text \<open>
  C6: in every state that a run of the core reaches, a push of an event whose time is
  before \<open>lastPopped\<close> fails the assertion of \<open>CalQCore::push\<close>, and a push of an event that
  is not linked in the queue and whose time is \<open>lastPopped\<close> or later returns with the
  event in the table and \<open>numEvents\<close> incremented.
\<close>

theorem push_causality_check:
  assumes "CalQCore_new logBinSize logNumBins startTime = Inr q0"
    and "core_run ops (q0, p0, f0) = Some (Inr (tr, (q, p, f)))"
    and "eid e \<notin> eid ` set (concat (bins q))"
  shows "(time e < lastPopped q \<longrightarrow> CalQCore_push q e = Inl AssertionFailed) \<and>
         (lastPopped q \<le> time e \<longrightarrow>
            (\<exists>q'. CalQCore_push q e = Inr q' \<and> numEvents q' = numEvents q + 1 \<and>
                  e \<in> set (bins q' ! unat (getSlot q' (time e)))))"
proof -
  from core_run_bucket_inv[OF CalQCore_new_bucket_inv[OF assms(1)] assms(2)]
  have b: "bucket_inv q" by simp
  have "CalQCore_push q e = Inl AssertionFailed" if "time e < lastPopped q"
    using that by (simp add: CalQCore_push_def not_le)
  moreover have "\<exists>q'. CalQCore_push q e = Inr q' \<and> numEvents q' = numEvents q + 1 \<and>
                  e \<in> set (bins q' ! unat (getSlot q' (time e)))" if "lastPopped q \<le> time e"
  proof -
    from CalQCore_push_accepts[OF b assms(3) that] obtain q' where q': "CalQCore_push q e = Inr q'" ..
    from CalQCore_push_result(3)[OF q'] have "numEvents q' = numEvents q + 1"
      by simp
    with q' CalQCore_push_bucket_inv(2)[OF b q'] show ?thesis
      by blast
  qed
  ultimately show ?thesis by blast
qed

theorem push_causality_check_witness:
  "\<exists>q0 tr q p f.
     CalQCore_new 0 2 0 = Inr q0 \<and>
     core_run [Push \<lparr>eid = 1, time = 5\<rparr>, Push \<lparr>eid = 2, time = 3\<rparr>, Pop] (q0, 0, 0)
       = Some (Inr (tr, (q, p, f))) \<and>
     lastPopped q = 3 \<and>
     CalQCore_push q \<lparr>eid = 3, time = 2\<rparr> = Inl AssertionFailed \<and>
     (\<exists>q'. CalQCore_push q \<lparr>eid = 3, time = 3\<rparr> = Inr q' \<and> numEvents q' = numEvents q + 1 \<and>
        \<lparr>eid = 3, time = 3\<rparr> \<in> set (bins q' ! unat (getSlot q' 3)))"
proof -
  have "\<exists>tr q p f. core_run [Push \<lparr>eid = 1, time = 5\<rparr>, Push \<lparr>eid = 2, time = 3\<rparr>, Pop]
      (\<lparr>bins = [[], [], [], []], binSize = 1, numBins = 4, divideShift = 0, moduloMask = 3,
          logTableSize = 2, currBin = 0, nextYearStart = 4, numEvents = 0, lastPopped = 0\<rparr>, 0, 0)
       = Some (Inr (tr, (q, p, f))) \<and> lastPopped q = 3 \<and> concat (bins q) = [\<lparr>eid = 1, time = 5\<rparr>]"
    by (simp add: eval_defs pop_loop.simps)
  then obtain tr q p f where
    r: "core_run [Push \<lparr>eid = 1, time = 5\<rparr>, Push \<lparr>eid = 2, time = 3\<rparr>, Pop]
      (\<lparr>bins = [[], [], [], []], binSize = 1, numBins = 4, divideShift = 0, moduloMask = 3,
          logTableSize = 2, currBin = 0, nextYearStart = 4, numEvents = 0, lastPopped = 0\<rparr>, 0, 0)
       = Some (Inr (tr, (q, p, f)))" and l: "lastPopped q = 3" and
    c: "concat (bins q) = [\<lparr>eid = 1, time = 5\<rparr>]"
    by blast
  have "eid \<lparr>eid = 3, time = 2\<rparr> \<notin> eid ` set (concat (bins q))"
       "eid \<lparr>eid = 3, time = 3\<rparr> \<notin> eid ` set (concat (bins q))"
    unfolding c by simp_all
  from push_causality_check[OF new_0_2_0 r this(1)] push_causality_check[OF new_0_2_0 r this(2)]
    new_0_2_0 r l
  show ?thesis
    by simp
qed

end
